theory Spec2Isabelle
  imports Main "HOL-Library.Word"
begin

unbundle bit_operations_syntax

section \<open>Machine integers\<close>

type_synonym u32 = "32 word"
type_synonym u64 = "64 word"

section \<open>The C library's generator\<close>

text \<open>
  \<^verbatim>\<open>rand()\<close> is the only effect of the program. Its hidden state is modelled as the
  sequence of values that the successive calls return, together with the number of calls
  made so far. A call returns a C \<^verbatim>\<open>int\<close>.
\<close>

record libc_state =
  rand_seq :: "nat \<Rightarrow> int"
  rand_calls :: nat

definition rand :: "libc_state \<Rightarrow> int \<times> libc_state" where
  "rand s = (rand_seq s (rand_calls s), s\<lparr>rand_calls := Suc (rand_calls s)\<rparr>)"

section \<open>The program\<close>

text \<open>
  \<^verbatim>\<open>get_random_uniform_32bits_integer\<close>: two calls of \<^verbatim>\<open>rand()\<close>; the first one, cast to
  \<^verbatim>\<open>uint32_t\<close>, gives the result, and the lowest bit of the second one is or-ed in at
  bit 31.
\<close>

definition get_random_uniform_32bits_integer :: "libc_state \<Rightarrow> u32 \<times> libc_state" where
  "get_random_uniform_32bits_integer s =
     (let (r1, s1) = rand s;
          result = (word_of_int r1 :: u32);
          (r2, s2) = rand s1;
          result = result OR push_bit 31 ((word_of_int r2 :: u32) AND 1)
      in (result, s2))"

text \<open>
  \<^verbatim>\<open>compute_interval\<close>: the 64-bit product of \<open>n\<close> and \<open>range\<close>, split into its upper
  half \<open>i\<close> and its lower half \<open>j\<close>. The two output parameters are returned as a pair.
\<close>

definition compute_interval :: "u32 \<Rightarrow> u32 \<Rightarrow> u32 \<times> u32" where
  "compute_interval n range' =
     (let n_times_range = (ucast n :: u64) * (ucast range' :: u64)
      in (ucast (drop_bit 32 n_times_range), ucast n_times_range))"

text \<open>The bound of the rejection interval, \<^verbatim>\<open>(-range) % range\<close> on \<^verbatim>\<open>uint32_t\<close>.\<close>

definition rejection_interval_upper_bound :: "u32 \<Rightarrow> u32" where
  "rejection_interval_upper_bound range' = (- range') mod range'"

text \<open>
  The \<^verbatim>\<open>while\<close> loop of \<^verbatim>\<open>lemire_rng\<close>. It has no bound on its iterations, so it is a
  partial function: \<open>None\<close> stands for a loop that never ends.
\<close>

partial_function (option) rejection_loop ::
  "u32 \<Rightarrow> u32 \<Rightarrow> u32 \<Rightarrow> u32 \<Rightarrow> libc_state \<Rightarrow> ((u32 \<times> u32) \<times> libc_state) option" where
  "rejection_loop range' bound i j s =
     (if j < bound then
        (case get_random_uniform_32bits_integer s of
           (n, s') \<Rightarrow>
             (case compute_interval n range' of
                (i', j') \<Rightarrow> rejection_loop range' bound i' j' s'))
      else Some ((i, j), s))"

declare rejection_loop.simps [code]

text \<open>
  \<^verbatim>\<open>lemire_rng\<close>. The argument \<open>result\<close> is the value of \<^verbatim>\<open>*result\<close> before the call; a
  returning call yields the return code, the value of \<^verbatim>\<open>*result\<close> after the call and the
  state of the generator.
\<close>

definition lemire_rng :: "u32 \<Rightarrow> u32 \<Rightarrow> libc_state \<Rightarrow> (int \<times> u32 \<times> libc_state) option" where
  "lemire_rng range' result s =
     (if range' = 0 then Some (1, result, s)
      else
        (case get_random_uniform_32bits_integer s of
           (n, s1) \<Rightarrow>
             (case compute_interval n range' of
                (i, j) \<Rightarrow>
                  if j \<ge> range' then Some (0, i, s1)
                  else
                    (case rejection_loop range' (rejection_interval_upper_bound range') i j s1 of
                       None \<Rightarrow> None
                     | Some ((i', j'), s2) \<Rightarrow> Some (0, i', s2)))))"

section \<open>Vocabulary for the claims\<close>

text \<open>
  One draw is one call of \<^verbatim>\<open>get_random_uniform_32bits_integer\<close>, that is, two calls
  of \<^verbatim>\<open>rand()\<close>. \<open>after_draws s k\<close> is the state that \<open>k\<close> draws lead to from \<open>s\<close>, and
  \<open>draw s k\<close> is the value of the draw number \<open>k\<close> (from 0) that a computation started
  in \<open>s\<close> receives.
\<close>

fun after_draws :: "libc_state \<Rightarrow> nat \<Rightarrow> libc_state" where
  "after_draws s 0 = s"
| "after_draws s (Suc k) = after_draws (snd (get_random_uniform_32bits_integer s)) k"

declare after_draws.simps [simp del]

definition draw :: "libc_state \<Rightarrow> nat \<Rightarrow> u32" where
  "draw s k = fst (get_random_uniform_32bits_integer (after_draws s k))"

text \<open>
  The loop's test, negated: a draw \<open>n\<close> is accepted when the lower half of its product
  is not below the bound of the rejection interval.
\<close>

definition accepted :: "u32 \<Rightarrow> u32 \<Rightarrow> bool" where
  "accepted range' n \<longleftrightarrow>
     \<not> snd (compute_interval n range') < rejection_interval_upper_bound range'"

text \<open>
  The variant of \<^verbatim>\<open>lemire_rng\<close> that the comment above the fast path describes: the
  \<^verbatim>\<open>if (j >= range)\<close> block is left out, so that the bound is always computed and the
  loop's test always runs.
\<close>

definition lemire_rng_no_fast_path ::
  "u32 \<Rightarrow> u32 \<Rightarrow> libc_state \<Rightarrow> (int \<times> u32 \<times> libc_state) option" where
  "lemire_rng_no_fast_path range' result s =
     (if range' = 0 then Some (1, result, s)
      else
        (case get_random_uniform_32bits_integer s of
           (n, s1) \<Rightarrow>
             (case compute_interval n range' of
                (i, j) \<Rightarrow>
                  (case rejection_loop range' (rejection_interval_upper_bound range') i j s1 of
                     None \<Rightarrow> None
                   | Some ((i', j'), s2) \<Rightarrow> Some (0, i', s2)))))"

text \<open>
  Two generators for concrete runs. \<open>rand_low_then_five\<close> answers 0 to the first two calls
  of \<^verbatim>\<open>rand()\<close> and 5 to every later one, so the first draw is 0 and the later ones are
  \<^verbatim>\<open>0x80000005\<close>. \<open>rand_max\<close> always answers \<^verbatim>\<open>RAND_MAX\<close>, taken as \<open>2\<^sup>3\<^sup>1 - 1\<close>, so every draw
  is \<^verbatim>\<open>0xFFFFFFFF\<close>.
\<close>

definition rand_low_then_five :: libc_state where
  "rand_low_then_five = \<lparr>rand_seq = (\<lambda>k. if k < 2 then 0 else 5), rand_calls = 0\<rparr>"

definition rand_max :: libc_state where
  "rand_max = \<lparr>rand_seq = (\<lambda>k. 2147483647), rand_calls = 0\<rparr>"

text \<open>
  A generator whose first draw is a given word \<open>n\<close>: the first call of \<^verbatim>\<open>rand()\<close> answers the
  lower 31 bits of \<open>n\<close>, and every later call answers bit 31 of \<open>n\<close>.
\<close>

definition rand_yielding :: "u32 \<Rightarrow> libc_state" where
  "rand_yielding n =
     \<lparr>rand_seq = (\<lambda>k. if k = 0 then uint (n AND 0x7FFFFFFF) else if bit n 31 then 1 else 0),
      rand_calls = 0\<rparr>"

section \<open>Arithmetic of the 32-bit operations\<close>

text \<open>
  The word operations of the program, read as natural numbers: the split of the product,
  the bound of the rejection interval, and the loop's test.
\<close>

lemma unat_u32_less: "unat (n :: u32) < 2 ^ 32"
  using unsigned_less [of n] by simp

lemma unat_product: "unat ((ucast n :: u64) * (ucast r :: u64)) = unat (n :: u32) * unat (r :: u32)"
proof -
  have n: "unat n < 2^32" and r: "unat r < 2^32" by (rule unat_u32_less)+
  then have "unat n * unat r < 2^32 * 2^32" by (rule mult_strict_mono) simp_all
  then have lt: "unat n * unat r < 2^64" by simp
  have un: "unat (ucast n :: u64) = unat n" "unat (ucast r :: u64) = unat r"
    using n r by (simp_all add: unsigned_ucast_eq take_bit_nat_eq_self_iff) 
  with lt show ?thesis using unat_mult_lem[of "ucast n :: u64" "ucast r :: u64"] by simp
qed

lemma unat_compute_interval_fst: "unat (fst (compute_interval n r)) = (unat n * unat r) div 2^32"
proof -
  have n: "unat n < 2^32" and r: "unat r < 2^32" by (rule unat_u32_less)+
  then have "unat n * unat r < 2^32 * 2^32" by (rule mult_strict_mono) simp_all
  then have "(unat n * unat r) div 2^32 < 2^32" by (simp add: less_mult_imp_div_less)
  moreover have "unat (drop_bit 32 ((ucast n :: u64) * ucast r)) = (unat n * unat r) div 2^32"
    by (simp only: unat_drop_bit_eq unat_product) (simp add: drop_bit_eq_div)
  moreover have "unat (fst (compute_interval n r))
      = take_bit 32 (unat (drop_bit 32 ((ucast n :: u64) * ucast r)))"
    by (simp only: compute_interval_def Let_def fst_conv unsigned_ucast_eq) simp
  ultimately show ?thesis
    by (simp only: take_bit_nat_eq_self)
qed

lemma unat_compute_interval_snd: "unat (snd (compute_interval n r)) = (unat n * unat r) mod 2^32"
  by (simp add: compute_interval_def Let_def unsigned_ucast_eq unat_product take_bit_eq_mod)

lemma unat_neg: "r \<noteq> 0 \<Longrightarrow> unat (- r :: u32) = 2^32 - unat r"
  using unat_sub_if_size [of 0 r] by (simp add: word_size unat_eq_0)

lemma unat_bound:
  assumes "r \<noteq> 0"
  shows "unat (rejection_interval_upper_bound r) = 2^32 mod unat r"
proof -
  have lt: "unat r < 2^32" by (rule unat_u32_less)
  have "unat ((- r) mod r) = (2^32 - unat r) mod unat r"
    using assms by (simp add: unat_mod_distrib unat_neg)
  also have "\<dots> = 2^32 mod unat r"
    using lt le_mod_geq [of "unat r" "2^32"] by simp
  finally show ?thesis by (simp add: rejection_interval_upper_bound_def)
qed

lemma bound_less: "r \<noteq> 0 \<Longrightarrow> rejection_interval_upper_bound r < r"
  by (simp add: rejection_interval_upper_bound_def word_mod_less_divisor word_greater_zero_iff)

lemma accepted_iff: "r \<noteq> 0 \<Longrightarrow> accepted r n \<longleftrightarrow> 2^32 mod unat r \<le> (unat n * unat r) mod 2^32"
  by (simp add: accepted_def word_less_nat_alt unat_compute_interval_snd unat_bound not_less)

lemma high_less: "r \<noteq> 0 \<Longrightarrow> fst (compute_interval n r) < r"
proof -
  assume "r \<noteq> 0"
  then have "0 < unat r" by (simp add: unat_gt_0)
  have "unat n * unat r < 2^32 * unat r"
    using unat_u32_less [of n] \<open>0 < unat r\<close> by simp
  then have "(unat n * unat r) div 2^32 < unat r"
    by (simp add: less_mult_imp_div_less mult.commute)
  then show ?thesis by (simp add: word_less_nat_alt unat_compute_interval_fst)
qed

lemma high_word_of_nat:
  "fst (compute_interval n r) = word_of_nat ((unat n * unat r) div 2 ^ 32)"
proof -
  have "word_of_nat (unat (fst (compute_interval n r))) = fst (compute_interval n r)"
    by simp
  then show ?thesis by (simp only: unat_compute_interval_fst)
qed

section \<open>Draws and the rejection loop\<close>

lemma after_draws_1: "after_draws s (Suc 0) = snd (get_random_uniform_32bits_integer s)"
  by (simp only: after_draws.simps)

lemma after_draws_0: "after_draws s 0 = s"
  by (rule after_draws.simps(1))

lemma get_random_draw:
  "get_random_uniform_32bits_integer s = (draw s 0, after_draws s (Suc 0))"
  by (simp add: draw_def after_draws_1 after_draws_0)

lemma after_draws_Suc: "after_draws (after_draws s (Suc 0)) k = after_draws s (Suc k)"
  by (simp only: after_draws.simps)

lemma draw_Suc: "draw (after_draws s (Suc 0)) k = draw s (Suc k)"
  by (simp only: draw_def after_draws_Suc)

lemma rand_calls_get_random:
  "rand_calls (snd (get_random_uniform_32bits_integer s)) = rand_calls s + 2"
  by (simp add: get_random_uniform_32bits_integer_def rand_def Let_def)

lemma rand_seq_get_random:
  "rand_seq (snd (get_random_uniform_32bits_integer s)) = rand_seq s"
  by (simp add: get_random_uniform_32bits_integer_def rand_def Let_def)


lemma rand_seq_after_draws: "rand_seq (after_draws s k) = rand_seq s"
  by (induction k arbitrary: s) (simp_all add: rand_seq_get_random after_draws.simps)

lemma rejection_loop_stops:
  "\<not> j < b \<Longrightarrow> rejection_loop r b i j s = Some ((i, j), s)"
  by (subst rejection_loop.simps) simp

lemma rejection_loop_step:
  "j < b \<Longrightarrow> rejection_loop r b i j s =
     rejection_loop r b (fst (compute_interval (draw s 0) r))
       (snd (compute_interval (draw s 0) r)) (after_draws s (Suc 0))"
  by (subst rejection_loop.simps) (simp only: get_random_draw case_prod_beta fst_conv snd_conv if_True)

lemma rejection_loop_first_accept:
  assumes "accepted r (draw s k)" and "\<forall>m<k. \<not> accepted r (draw s m)"
    and "j < rejection_interval_upper_bound r"
  shows "rejection_loop r (rejection_interval_upper_bound r) i j s =
    Some (compute_interval (draw s k) r, after_draws s (Suc k))"
  using assms
proof (induction k arbitrary: s i j)
  case 0
  then show ?case
    by (simp add: rejection_loop_step rejection_loop_stops accepted_def)
next
  case (Suc k)
  let ?s = "after_draws s (Suc 0)"
  from Suc.prems(2) have rej: "\<not> accepted r (draw s 0)" by blast
  have acc: "accepted r (draw ?s k)" using Suc.prems(1) by (simp only: draw_Suc)
  have first: "\<forall>m<k. \<not> accepted r (draw ?s m)"
    using Suc.prems(2) by (simp only: draw_Suc) auto
  have "rejection_loop r (rejection_interval_upper_bound r) i j s =
      rejection_loop r (rejection_interval_upper_bound r) (fst (compute_interval (draw s 0) r))
       (snd (compute_interval (draw s 0) r)) ?s"
    using Suc.prems(3) by (rule rejection_loop_step)
  also have "\<dots> = Some (compute_interval (draw ?s k) r, after_draws ?s (Suc k))"
    using acc first rej by (intro Suc.IH) (simp_all add: accepted_def)
  finally show ?case by (simp only: draw_Suc after_draws_Suc)
qed

lemma rejection_loop_Some_accepted:
  assumes major: "rejection_loop r b i j s = Some y"
  shows "j < b \<longrightarrow> b = rejection_interval_upper_bound r \<longrightarrow> (\<exists>k. accepted r (draw s k))"
proof (rule rejection_loop.raw_induct
    [where P = "\<lambda>r b i j s y. j < b \<longrightarrow> b = rejection_interval_upper_bound r \<longrightarrow>
       (\<exists>k. accepted r (draw s k))", OF _ major])
  fix loop :: "u32 \<Rightarrow> u32 \<Rightarrow> u32 \<Rightarrow> u32 \<Rightarrow> libc_state \<Rightarrow> ((u32 \<times> u32) \<times> libc_state) option"
  fix r b i j s y
  assume IH: "\<And>r b i j s y. loop r b i j s = Some y \<Longrightarrow>
      j < b \<longrightarrow> b = rejection_interval_upper_bound r \<longrightarrow> (\<exists>k. accepted r (draw s k))"
    and unfolded: "(if j < b then
        (case get_random_uniform_32bits_integer s of
           (n, s') \<Rightarrow>
             (case compute_interval n r of
                (i', j') \<Rightarrow> loop r b i' j' s'))
      else Some ((i, j), s)) = Some y"
  let ?n = "draw s 0"
  let ?s = "after_draws s (Suc 0)"
  show "j < b \<longrightarrow> b = rejection_interval_upper_bound r \<longrightarrow> (\<exists>k. accepted r (draw s k))"
  proof (intro impI)
    assume less: "j < b" and b: "b = rejection_interval_upper_bound r"
    from unfolded less
    have run: "loop r b (fst (compute_interval ?n r)) (snd (compute_interval ?n r)) ?s = Some y"
      by (simp only: get_random_draw case_prod_beta fst_conv snd_conv if_True)
    show "\<exists>k. accepted r (draw s k)"
    proof (cases "snd (compute_interval ?n r) < b")
      case True
      with IH [OF run] b have "\<exists>k. accepted r (draw ?s k)" by blast
      then show ?thesis by (auto simp only: draw_Suc)
    next
      case False
      then have "accepted r ?n" using b by (simp add: accepted_def)
      then show ?thesis by blast
    qed
  qed
qed

section \<open>The call as a whole\<close>

lemma lemire_rng_unfold:
  "r \<noteq> 0 \<Longrightarrow> lemire_rng r res s =
     (if r \<le> snd (compute_interval (draw s 0) r)
      then Some (0, fst (compute_interval (draw s 0) r), after_draws s (Suc 0))
      else (case rejection_loop r (rejection_interval_upper_bound r)
                  (fst (compute_interval (draw s 0) r)) (snd (compute_interval (draw s 0) r))
                  (after_draws s (Suc 0)) of
              None \<Rightarrow> None
            | Some ((i', j'), s2) \<Rightarrow> Some (0, i', s2)))"
  by (simp only: lemire_rng_def get_random_draw case_prod_beta fst_conv snd_conv if_False)

lemma lemire_rng_first_accept:
  assumes r: "r \<noteq> 0" and acc: "accepted r (draw s k)"
    and first: "\<forall>m<k. \<not> accepted r (draw s m)"
  shows "lemire_rng r res s =
    Some (0, fst (compute_interval (draw s k) r), after_draws s (Suc k))"
proof (cases k)
  case 0
  let ?i = "fst (compute_interval (draw s 0) r)"
  let ?j = "snd (compute_interval (draw s 0) r)"
  from acc 0 have "\<not> ?j < rejection_interval_upper_bound r" by (simp add: accepted_def)
  then have "rejection_loop r (rejection_interval_upper_bound r) ?i ?j (after_draws s (Suc 0))
      = Some ((?i, ?j), after_draws s (Suc 0))"
    by (rule rejection_loop_stops)
  then show ?thesis using r 0 by (simp add: lemire_rng_unfold case_prod_beta)
next
  case (Suc k')
  let ?i = "fst (compute_interval (draw s 0) r)"
  let ?j = "snd (compute_interval (draw s 0) r)"
  let ?s = "after_draws s (Suc 0)"
  from first Suc have "\<not> accepted r (draw s 0)" by blast
  then have less: "?j < rejection_interval_upper_bound r" by (simp add: accepted_def)
  with bound_less [OF r] have slow: "\<not> r \<le> ?j" by simp
  have acc': "accepted r (draw ?s k')" using acc Suc by (simp only: draw_Suc)
  have first': "\<forall>m<k'. \<not> accepted r (draw ?s m)"
    using first Suc by (simp only: draw_Suc) auto
  have "rejection_loop r (rejection_interval_upper_bound r) ?i ?j ?s =
      Some (compute_interval (draw ?s k') r, after_draws ?s (Suc k'))"
    using acc' first' less by (rule rejection_loop_first_accept)
  then show ?thesis using r slow Suc
    by (simp add: lemire_rng_unfold draw_Suc after_draws_Suc case_prod_beta)
qed

lemma lemire_rng_Some_accepted:
  assumes r: "r \<noteq> 0" and ret: "lemire_rng r res s = Some y"
  shows "\<exists>k. accepted r (draw s k)"
proof (cases "accepted r (draw s 0)")
  case True
  then show ?thesis by blast
next
  case False
  let ?i = "fst (compute_interval (draw s 0) r)"
  let ?j = "snd (compute_interval (draw s 0) r)"
  let ?s = "after_draws s (Suc 0)"
  from False have less: "?j < rejection_interval_upper_bound r" by (simp add: accepted_def)
  with bound_less [OF r] have slow: "\<not> r \<le> ?j" by simp
  from ret r slow obtain z where
    "rejection_loop r (rejection_interval_upper_bound r) ?i ?j ?s = Some z"
    by (auto simp add: lemire_rng_unfold split: option.splits)
  from rejection_loop_Some_accepted [OF this] less
  have "\<exists>k. accepted r (draw ?s k)" by blast
  then show ?thesis by (auto simp only: draw_Suc)
qed

lemma first_accepted_draw:
  assumes "accepted r (draw s k)"
  obtains k0 where "accepted r (draw s k0)" and "\<forall>m<k0. \<not> accepted r (draw s m)"
proof
  let ?k = "LEAST k. accepted r (draw s k)"
  show "accepted r (draw s ?k)" using assms by (rule LeastI)
  show "\<forall>m<?k. \<not> accepted r (draw s m)" using not_less_Least by blast
qed

section \<open>Counting the accepted draws\<close>

lemma ceil_le_iff:
  fixes a k r :: nat
  assumes "0 < r"
  shows "a \<le> k * r \<longleftrightarrow> (a + r - 1) div r \<le> k"
proof
  assume "a \<le> k * r"
  then have "a + r - 1 < (k + 1) * r" using assms by simp
  then have "(a + r - 1) div r < k + 1" using assms by (simp add: less_mult_imp_div_less)
  then show "(a + r - 1) div r \<le> k" by simp
next
  assume le: "(a + r - 1) div r \<le> k"
  have "(a + r - 1) div r * r + (a + r - 1) mod r = a + r - 1" by (rule div_mult_mod_eq)
  moreover have "(a + r - 1) mod r < r" using assms by simp
  ultimately have "a \<le> (a + r - 1) div r * r" by linarith
  also have "\<dots> \<le> k * r" using le by (rule mult_le_mono1)
  finally show "a \<le> k * r" .
qed

lemma card_multiples_in_window:
  fixes a q r :: nat
  assumes "0 < r"
  shows "card {k. a \<le> k * r \<and> k * r < a + q * r} = q"
proof -
  let ?c = "(a + r - 1) div r"
  have "a + q * r + r - 1 = (a + r - 1) + q * r" using assms by simp
  then have "(a + q * r + r - 1) div r = ((a + r - 1) + q * r) div r" by (rule arg_cong)
  also have "\<dots> = q + ?c" using assms by (intro div_mult_self1) simp
  finally have shift: "(a + q * r + r - 1) div r = ?c + q" by simp
  have upper: "k * r < a + q * r \<longleftrightarrow> k < ?c + q" for k
    using ceil_le_iff [OF assms, of "a + q * r" k] shift by (simp add: not_le [symmetric])
  have lower: "a \<le> k * r \<longleftrightarrow> ?c \<le> k" for k
    by (rule ceil_le_iff [OF assms])
  have "{k. a \<le> k * r \<and> k * r < a + q * r} = {?c..<?c + q}"
    by (simp only: lower upper atLeastLessThan_def atLeast_def lessThan_def Int_def mem_Collect_eq)
  then show ?thesis by simp
qed

lemma split_window:
  fixes k r v N :: nat
  assumes "v < r"
  shows "k < N \<and> N mod r \<le> (k * r) mod N \<and> (k * r) div N = v \<longleftrightarrow>
    v * N + N mod r \<le> k * r \<and> k * r < (v * N + N mod r) + (N div r) * r"
proof (cases "N = 0")
  case True
  then show ?thesis by simp
next
  case False
  then have Npos: "0 < N" by simp
  have "N div r * r + N mod r = N" by (rule div_mult_mod_eq)
  then have end_eq: "(v * N + N mod r) + (N div r) * r = v * N + N" by simp
  have dm: "(k * r) div N * N + (k * r) mod N = k * r" by (rule div_mult_mod_eq)
  have modlt: "(k * r) mod N < N" using Npos by simp
  show ?thesis unfolding end_eq
  proof (intro iffI conjI)
    assume a: "k < N \<and> N mod r \<le> (k * r) mod N \<and> (k * r) div N = v"
    then have eq: "v * N + (k * r) mod N = k * r" using dm by simp
    from a eq show "v * N + N mod r \<le> k * r" by linarith
    from eq modlt show "k * r < v * N + N" by linarith
  next
    assume b: "v * N + N mod r \<le> k * r \<and> k * r < v * N + N"
    from assms have "Suc v * N \<le> r * N" by (intro mult_le_mono1) simp
    with b have "k * r < N * r" by (simp only: mult_Suc mult.commute [of r N]) linarith
    then show "k < N" by (simp only: mult_less_cancel2)
  next
    assume b: "v * N + N mod r \<le> k * r \<and> k * r < v * N + N"
    then have "v * N \<le> k * r" by simp
    then have "v \<le> (k * r) div N" using Npos by (simp add: less_eq_div_iff_mult_less_eq)
    moreover from b have "k * r < Suc v * N" by simp
    then have "(k * r) div N < Suc v" using Npos by (simp only: less_mult_imp_div_less)
    ultimately show "(k * r) div N = v" by simp
  next
    assume b: "v * N + N mod r \<le> k * r \<and> k * r < v * N + N"
    then have "v * N \<le> k * r" by simp
    then have "v \<le> (k * r) div N" using Npos by (simp add: less_eq_div_iff_mult_less_eq)
    moreover from b have "k * r < Suc v * N" by simp
    then have "(k * r) div N < Suc v" using Npos by (simp only: less_mult_imp_div_less)
    ultimately have "(k * r) div N = v" by simp
    then have eq: "v * N + (k * r) mod N = k * r" using dm by simp
    from b eq show "N mod r \<le> (k * r) mod N" by linarith
  qed
qed

lemma card_u32_Collect:
  "card {n :: u32. P (unat n)} = card {k :: nat. k < 2 ^ 32 \<and> P k}"
proof -
  have "unat ` {n :: u32. P (unat n)} = {k. k < 2 ^ 32 \<and> P k}"
  proof (intro set_eqI iffI)
    fix k assume "k \<in> unat ` {n :: u32. P (unat n)}"
    then show "k \<in> {k. k < 2 ^ 32 \<and> P k}" using unat_u32_less by auto
  next
    fix k assume "k \<in> {k. k < 2 ^ 32 \<and> P k}"
    then have k: "k < 2 ^ 32" and P: "P k" by simp_all
    from k have "unat (word_of_nat k :: u32) = k" by (simp add: unat_of_nat)
    with P show "k \<in> unat ` {n :: u32. P (unat n)}" by (metis (mono_tags, lifting) image_eqI mem_Collect_eq)
  qed
  moreover have "inj_on unat {n :: u32. P (unat n)}" by (simp add: inj_on_def word_unat_eq_iff)
  ultimately show ?thesis by (metis card_image)
qed

lemma accepted_count:
  assumes r: "r \<noteq> 0" and v: "v < r"
  shows "card {n. accepted r n \<and> fst (compute_interval n r) = v} = 2 ^ 32 div unat r"
proof -
  let ?r = "unat r" and ?v = "unat v"
  let ?Q = "\<lambda>k. 2 ^ 32 mod ?r \<le> (k * ?r) mod 2 ^ 32 \<and> (k * ?r) div 2 ^ 32 = ?v"
  from r have rpos: "0 < ?r" by (simp add: unat_gt_0)
  from v have vr: "?v < ?r" by (simp add: word_less_nat_alt)
  have "(accepted r n \<and> fst (compute_interval n r) = v) = ?Q (unat n)" for n
    using r by (simp add: accepted_iff word_unat_eq_iff [of _ v] unat_compute_interval_fst)
  then have "card {n. accepted r n \<and> fst (compute_interval n r) = v} = card {n :: u32. ?Q (unat n)}"
    by simp
  also have "\<dots> = card {k. k < 2 ^ 32 \<and> ?Q k}" by (rule card_u32_Collect)
  also have "{k. k < 2 ^ 32 \<and> ?Q k} =
      {k. ?v * 2 ^ 32 + 2 ^ 32 mod ?r \<le> k * ?r \<and>
          k * ?r < (?v * 2 ^ 32 + 2 ^ 32 mod ?r) + (2 ^ 32 div ?r) * ?r}"
    using split_window [OF vr, of _ "2 ^ 32"] by blast
  also have "card \<dots> = 2 ^ 32 div ?r" using rpos by (rule card_multiples_in_window)
  finally show ?thesis .
qed

section \<open>The fast path and the powers of two\<close>

lemma bound_power_of_two:
  assumes "unat r = 2 ^ k"
  shows "rejection_interval_upper_bound r = 0"
proof -
  from assms have r: "r \<noteq> 0" by (auto simp add: unat_eq_0 [symmetric])
  have lt: "(2::nat) ^ k < 2 ^ 32" using unat_u32_less [of r] assms by simp
  have "k \<le> 32"
  proof (rule ccontr)
    assume "\<not> k \<le> 32"
    then have "32 \<le> k" by simp
    then have "(2::nat) ^ 32 \<le> 2 ^ k" by (intro power_increasing) simp_all
    with lt show False by simp
  qed
  then have "(2::nat) ^ k dvd 2 ^ 32" by (rule le_imp_power_dvd)
  then have "2 ^ 32 mod unat r = 0" using assms by simp
  with unat_bound [OF r] show ?thesis by (simp add: unat_eq_0)
qed

lemma no_fast_path_unfold:
  "r \<noteq> 0 \<Longrightarrow> lemire_rng_no_fast_path r res s =
     (case rejection_loop r (rejection_interval_upper_bound r)
                  (fst (compute_interval (draw s 0) r)) (snd (compute_interval (draw s 0) r))
                  (after_draws s (Suc 0)) of
              None \<Rightarrow> None
            | Some ((i', j'), s2) \<Rightarrow> Some (0, i', s2))"
  by (simp only: lemire_rng_no_fast_path_def get_random_draw case_prod_beta fst_conv snd_conv if_False)

lemma lemire_rng_eq_no_fast_path:
  "lemire_rng r res s = lemire_rng_no_fast_path r res s"
proof (cases "r = 0")
  case True
  then show ?thesis by (simp add: lemire_rng_def lemire_rng_no_fast_path_def)
next
  case False
  let ?i = "fst (compute_interval (draw s 0) r)"
  let ?j = "snd (compute_interval (draw s 0) r)"
  show ?thesis
  proof (cases "r \<le> ?j")
    case True
    with bound_less [OF False] have "\<not> ?j < rejection_interval_upper_bound r" by simp
    then have "rejection_loop r (rejection_interval_upper_bound r) ?i ?j (after_draws s (Suc 0))
        = Some ((?i, ?j), after_draws s (Suc 0))"
      by (rule rejection_loop_stops)
    with True False show ?thesis
      by (simp add: lemire_rng_unfold no_fast_path_unfold case_prod_beta)
  next
    case slow: False
    with False show ?thesis by (simp add: lemire_rng_unfold no_fast_path_unfold)
  qed
qed

section \<open>Returning calls\<close>

lemma lemire_rng_never_returns:
  assumes "r \<noteq> 0" and "\<forall>k. \<not> accepted r (draw s k)"
  shows "lemire_rng r res s = None"
proof (cases "lemire_rng r res s")
  case None
  then show ?thesis .
next
  case (Some y)
  with assms(1) have "\<exists>k. accepted r (draw s k)" by (rule lemire_rng_Some_accepted)
  with assms(2) show ?thesis by blast
qed

lemma lemire_rng_returns_first_accepted:
  assumes r: "r \<noteq> 0" and ret: "lemire_rng r res s = Some (rc, v, s')"
  obtains k where "accepted r (draw s k)" and "\<forall>m<k. \<not> accepted r (draw s m)"
    and "rc = 0" and "v = fst (compute_interval (draw s k) r)" and "s' = after_draws s (Suc k)"
proof -
  from r ret have "\<exists>k. accepted r (draw s k)" by (rule lemire_rng_Some_accepted)
  then obtain k1 where "accepted r (draw s k1)" ..
  then obtain k where acc: "accepted r (draw s k)" and first: "\<forall>m<k. \<not> accepted r (draw s m)"
    by (rule first_accepted_draw)
  from lemire_rng_first_accept [OF r acc first, of res] ret
  have "rc = 0" "v = fst (compute_interval (draw s k) r)" "s' = after_draws s (Suc k)"
    by simp_all
  with acc first show thesis by (rule that)
qed

section \<open>Concrete runs\<close>

lemma get_random_rand_max:
  "get_random_uniform_32bits_integer rand_max = (0xFFFFFFFF, rand_max\<lparr>rand_calls := 2\<rparr>)"
  by (simp add: get_random_uniform_32bits_integer_def rand_def rand_max_def)

lemma get_random_rand_low_then_five:
  "get_random_uniform_32bits_integer rand_low_then_five =
     (0, rand_low_then_five\<lparr>rand_calls := 2\<rparr>)"
  by (simp add: get_random_uniform_32bits_integer_def rand_def rand_low_then_five_def)


lemma draw_2_rand_low_then_five: "draw rand_low_then_five 2 = 0x80000005"
  by (simp add: draw_def numeral_2_eq_2 after_draws.simps get_random_uniform_32bits_integer_def
      rand_def rand_low_then_five_def)

lemma lemire_rng_3_rand_low_then_five:
  "lemire_rng 3 7 rand_low_then_five = Some (0, 1, rand_low_then_five\<lparr>rand_calls := 4\<rparr>)"
  by (simp add: lemire_rng_def get_random_uniform_32bits_integer_def rand_def
      rand_low_then_five_def compute_interval_def rejection_interval_upper_bound_def
      rejection_loop.simps)

section \<open>The draws that return a given value\<close>

lemma split_top_bit: "(n AND 0x7FFFFFFF) OR push_bit 31 (of_bool (bit n 31)) = (n :: u32)"
proof -
  have m: "(0x7FFFFFFF :: u32) = mask 31" by (simp add: mask_eq_exp_minus_1)
  show ?thesis unfolding m
  proof (rule bit_word_eqI)
    fix k
    assume "k < LENGTH(32)"
    then have k: "k < 32" by simp
    show "bit (n AND mask 31 OR push_bit 31 (of_bool (bit n 31))) k \<longleftrightarrow> bit n k"
    proof (cases "k = 31")
      case True
      then show ?thesis by (simp add: bit_simps)
    next
      case False
      with k have "k < 31" by simp
      then show ?thesis by (auto simp add: bit_simps)
    qed
  qed
qed

lemma draw_rand_yielding: "draw (rand_yielding n) 0 = n"
proof -
  have "fst (get_random_uniform_32bits_integer (rand_yielding n)) =
      (n AND 0x7FFFFFFF) OR push_bit 31 (of_bool (bit n 31))"
    by (simp add: get_random_uniform_32bits_integer_def rand_def rand_yielding_def)
  then show ?thesis by (simp only: draw_def after_draws_0 split_top_bit)
qed

lemma returned_value_set:
  assumes r: "r \<noteq> 0"
  shows "{n. accepted r n \<and>
        (\<forall>s k res. draw s k = n \<longrightarrow> (\<forall>m<k. \<not> accepted r (draw s m)) \<longrightarrow>
           lemire_rng r res s = Some (0, v, after_draws s (Suc k)))} =
     {n. accepted r n \<and> fst (compute_interval n r) = v}"
    (is "?A = ?B")
proof (rule set_eqI)
  fix n
  show "n \<in> ?A \<longleftrightarrow> n \<in> ?B"
  proof
    assume "n \<in> ?A"
    then have acc: "accepted r n"
      and ret: "\<And>s k res. draw s k = n \<Longrightarrow> \<forall>m<k. \<not> accepted r (draw s m) \<Longrightarrow>
           lemire_rng r res s = Some (0, v, after_draws s (Suc k))"
      by simp_all
    let ?s = "rand_yielding n"
    have d: "draw ?s 0 = n" by (rule draw_rand_yielding)
    have "lemire_rng r 0 ?s = Some (0, v, after_draws ?s (Suc 0))"
      using d by (rule ret) simp
    moreover have "lemire_rng r 0 ?s =
        Some (0, fst (compute_interval (draw ?s 0) r), after_draws ?s (Suc 0))"
      using acc by (intro lemire_rng_first_accept [OF r]) (simp_all add: d)
    ultimately have "fst (compute_interval n r) = v" by (simp add: d)
    with acc show "n \<in> ?B" by simp
  next
    assume "n \<in> ?B"
    then have acc: "accepted r n" and v: "fst (compute_interval n r) = v" by simp_all
    have "lemire_rng r res s = Some (0, v, after_draws s (Suc k))"
      if d: "draw s k = n" and first: "\<forall>m<k. \<not> accepted r (draw s m)" for s k res
    proof -
      from acc d have "accepted r (draw s k)" by simp
      from lemire_rng_first_accept [OF r this first, of res] d v show ?thesis by simp
    qed
    with acc show "n \<in> ?A" by simp
  qed
qed

section \<open>The claims\<close>

text \<open>
  C1. Exact uniformity of the returned value. Fix \<open>range > 0\<close> and \<open>v < range\<close>, and take the
  accepted 32-bit draws \<open>n\<close> that make \<^verbatim>\<open>lemire_rng\<close> return \<open>v\<close>: whenever \<open>n\<close> is the first
  accepted draw of a run, the call returns 0 with \<open>v\<close> in \<^verbatim>\<open>*result\<close>, having consumed the draws
  up to \<open>n\<close>. There are exactly \<open>2\<^sup>3\<^sup>2 div range\<close> such draws, the same number for every \<open>v\<close>,
  and they are the \<open>n\<close> with \<open>(n * range) mod 2\<^sup>3\<^sup>2 \<ge> 2\<^sup>3\<^sup>2 mod range\<close> and
  \<open>(n * range) div 2\<^sup>3\<^sup>2 = v\<close>. So the value returned at the first accepted draw takes each
  \<open>v\<close> below \<open>range\<close> on equally many of the accepted draws.
\<close>

theorem returned_value_uniform:
  assumes "range' \<noteq> 0" and "v < range'"
  shows "card {n. accepted range' n \<and>
          (\<forall>s k result. draw s k = n \<longrightarrow> (\<forall>m<k. \<not> accepted range' (draw s m)) \<longrightarrow>
             lemire_rng range' result s = Some (0, v, after_draws s (Suc k)))} =
        2 ^ 32 div unat range' \<and>
    {n. accepted range' n \<and>
          (\<forall>s k result. draw s k = n \<longrightarrow> (\<forall>m<k. \<not> accepted range' (draw s m)) \<longrightarrow>
             lemire_rng range' result s = Some (0, v, after_draws s (Suc k)))} =
      {n. 2 ^ 32 mod unat range' \<le> (unat n * unat range') mod 2 ^ 32 \<and>
          (unat n * unat range') div 2 ^ 32 = unat v}"
proof
  note set = returned_value_set [OF assms(1), of v]
  show "card {n. accepted range' n \<and>
          (\<forall>s k result. draw s k = n \<longrightarrow> (\<forall>m<k. \<not> accepted range' (draw s m)) \<longrightarrow>
             lemire_rng range' result s = Some (0, v, after_draws s (Suc k)))} =
        2 ^ 32 div unat range'"
    unfolding set using assms by (rule accepted_count)
  have "{n. accepted range' n \<and> fst (compute_interval n range') = v} =
      {n. 2 ^ 32 mod unat range' \<le> (unat n * unat range') mod 2 ^ 32 \<and>
          (unat n * unat range') div 2 ^ 32 = unat v}"
    using assms(1)
    by (simp add: accepted_iff word_unat_eq_iff [of _ v] unat_compute_interval_fst)
  then show "{n. accepted range' n \<and>
          (\<forall>s k result. draw s k = n \<longrightarrow> (\<forall>m<k. \<not> accepted range' (draw s m)) \<longrightarrow>
             lemire_rng range' result s = Some (0, v, after_draws s (Suc k)))} =
      {n. 2 ^ 32 mod unat range' \<le> (unat n * unat range') mod 2 ^ 32 \<and>
          (unat n * unat range') div 2 ^ 32 = unat v}"
    unfolding set .
qed

theorem returned_value_uniform_witness:
  "(3 :: u32) \<noteq> 0 \<and> (1 :: u32) < 3 \<and>
   card {n. accepted 3 n \<and>
          (\<forall>s k result. draw s k = n \<longrightarrow> (\<forall>m<k. \<not> accepted 3 (draw s m)) \<longrightarrow>
             lemire_rng 3 result s = Some (0, 1, after_draws s (Suc k)))} = 1431655765 \<and>
   (0x80000005 :: u32) \<in> {n. accepted 3 n \<and>
          (\<forall>s k result. draw s k = n \<longrightarrow> (\<forall>m<k. \<not> accepted 3 (draw s m)) \<longrightarrow>
             lemire_rng 3 result s = Some (0, 1, after_draws s (Suc k)))} \<and>
   lemire_rng 3 7 rand_low_then_five = Some (0, 1, rand_low_then_five\<lparr>rand_calls := 4\<rparr>)"
proof -
  have r: "(3 :: u32) \<noteq> 0" and v: "(1 :: u32) < 3" by simp_all
  note u = returned_value_uniform [OF r v]
  have q: "2 ^ 32 div unat (3 :: u32) = 1431655765" by simp
  have c: "card {n. accepted 3 n \<and>
          (\<forall>s k result. draw s k = n \<longrightarrow> (\<forall>m<k. \<not> accepted 3 (draw s m)) \<longrightarrow>
             lemire_rng 3 result s = Some (0, 1, after_draws s (Suc k)))} = 1431655765"
    using u [THEN conjunct1] by (simp only: q)
  have "(0x80000005 :: u32) \<in>
      {n. 2 ^ 32 mod unat (3 :: u32) \<le> (unat n * unat (3 :: u32)) mod 2 ^ 32 \<and>
          (unat n * unat (3 :: u32)) div 2 ^ 32 = unat (1 :: u32)}"
    by simp
  then have m: "(0x80000005 :: u32) \<in> {n. accepted 3 n \<and>
          (\<forall>s k result. draw s k = n \<longrightarrow> (\<forall>m<k. \<not> accepted 3 (draw s m)) \<longrightarrow>
             lemire_rng 3 result s = Some (0, 1, after_draws s (Suc k)))}"
    by (simp only: u [THEN conjunct2])
  from r v c m lemire_rng_3_rand_low_then_five show ?thesis by (intro conjI)
qed

text \<open>
  C2. Range containment: a call with \<open>range > 0\<close> that returns has the return code 0 and
  leaves in \<^verbatim>\<open>*result\<close> a value \<open>v\<close> with \<open>0 \<le> v < range\<close>.
\<close>

theorem range_containment:
  assumes "range' \<noteq> 0" and "lemire_rng range' result s = Some (rc, v, s')"
  shows "rc = 0 \<and> 0 \<le> v \<and> v < range'"
proof -
  from assms obtain k where "rc = 0" and "v = fst (compute_interval (draw s k) range')"
    by (rule lemire_rng_returns_first_accepted)
  with high_less [OF assms(1)] show ?thesis by simp
qed

theorem range_containment_witness:
  "(3 :: u32) \<noteq> 0 \<and>
   lemire_rng 3 7 rand_low_then_five = Some (0, 1, rand_low_then_five\<lparr>rand_calls := 4\<rparr>) \<and>
   (0 :: int) = 0 \<and> (0 :: u32) \<le> 1 \<and> (1 :: u32) < 3"
  using range_containment [OF _ lemire_rng_3_rand_low_then_five]
    lemire_rng_3_rand_low_then_five by simp

text \<open>
  C3. The zero-range error: with \<open>range = 0\<close> the call returns 1 in the state of the
  generator it started in, so no draw was made; and a returning call has a non-zero return
  code exactly when \<open>range = 0\<close>.
\<close>

theorem zero_range_error:
  "(range' = 0 \<longrightarrow> lemire_rng range' result s = Some (1, result, s)) \<and>
   (\<forall>rc v s'. lemire_rng range' result s = Some (rc, v, s') \<longrightarrow> (rc \<noteq> 0 \<longleftrightarrow> range' = 0))"
proof (intro conjI allI impI)
  assume "range' = 0"
  then show "lemire_rng range' result s = Some (1, result, s)" by (simp add: lemire_rng_def)
next
  fix rc v s'
  assume ret: "lemire_rng range' result s = Some (rc, v, s')"
  show "rc \<noteq> 0 \<longleftrightarrow> range' = 0"
  proof (cases "range' = 0")
    case True
    with ret show ?thesis by (simp add: lemire_rng_def)
  next
    case False
    from False ret obtain k where "rc = 0" by (rule lemire_rng_returns_first_accepted)
    with False show ?thesis by simp
  qed
qed

theorem zero_range_error_witness:
  "lemire_rng 0 7 rand_max = Some (1, 7, rand_max) \<and> (1 :: int) \<noteq> 0 \<and>
   lemire_rng 3 7 rand_low_then_five = Some (0, 1, rand_low_then_five\<lparr>rand_calls := 4\<rparr>) \<and>
   (3 :: u32) \<noteq> 0"
  using zero_range_error [of 0 7 rand_max] zero_range_error [of 3 7 rand_low_then_five]
    lemire_rng_3_rand_low_then_five by simp

text \<open>
  C4. The threshold identity: for \<open>range > 0\<close>, the bound of the rejection interval, computed
  on 32-bit words as \<^verbatim>\<open>(-range) % range\<close>, is \<open>2\<^sup>3\<^sup>2 mod range\<close>.
\<close>

theorem threshold_identity:
  assumes "range' \<noteq> 0"
  shows "rejection_interval_upper_bound range' = (- range') mod range' \<and>
    unat ((- range') mod range') = 2 ^ 32 mod unat range'"
  using unat_bound [OF assms] by (simp add: rejection_interval_upper_bound_def)

theorem threshold_identity_witness:
  "(12345 :: u32) \<noteq> 0 \<and> rejection_interval_upper_bound 12345 = 6001 \<and>
   (2 ^ 32 mod 12345 :: nat) = 6001"
  using threshold_identity [of 12345] by (simp add: rejection_interval_upper_bound_def)

text \<open>
  C5. The fast path is an optimisation only. For \<open>range > 0\<close> the bound of the rejection
  interval is at most \<open>range\<close> (below it when \<open>range > 1\<close>, and 0 when \<open>range\<close> is a power of
  two), so a lower half \<open>j \<ge> range\<close> is not below the bound; and \<^verbatim>\<open>lemire_rng\<close> agrees with
  the variant that has no fast path in the return code, in \<^verbatim>\<open>*result\<close> and in the state of the
  generator, hence in the number of draws, and in whether it returns at all.
\<close>

theorem fast_accept_is_optimisation:
  assumes "range' \<noteq> 0"
  shows "rejection_interval_upper_bound range' \<le> range' \<and>
    (1 < range' \<longrightarrow> rejection_interval_upper_bound range' < range') \<and>
    (\<forall>k. unat range' = 2 ^ k \<longrightarrow> rejection_interval_upper_bound range' = 0) \<and>
    (\<forall>j. range' \<le> j \<longrightarrow> rejection_interval_upper_bound range' \<le> j) \<and>
    lemire_rng range' result s = lemire_rng_no_fast_path range' result s"
proof (intro conjI allI impI)
  from bound_less [OF assms] show "rejection_interval_upper_bound range' \<le> range'" by simp
  from bound_less [OF assms] show "rejection_interval_upper_bound range' < range'" .
  show "rejection_interval_upper_bound range' = 0" if "unat range' = 2 ^ k" for k
    using that by (rule bound_power_of_two)
  show "rejection_interval_upper_bound range' \<le> j" if "range' \<le> j" for j
    using bound_less [OF assms] that by simp
  show "lemire_rng range' result s = lemire_rng_no_fast_path range' result s"
    by (rule lemire_rng_eq_no_fast_path)
qed

theorem fast_accept_is_optimisation_witness:
  "(16 :: u32) \<noteq> 0 \<and> (1 :: u32) < 16 \<and> unat (16 :: u32) = 2 ^ 4 \<and>
   (16 :: u32) \<le> 4294967280 \<and>
   rejection_interval_upper_bound 16 = 0 \<and>
   lemire_rng_no_fast_path 16 7 rand_max = Some (0, 15, rand_max\<lparr>rand_calls := 2\<rparr>) \<and>
   lemire_rng_no_fast_path 3 7 rand_low_then_five =
     Some (0, 1, rand_low_then_five\<lparr>rand_calls := 4\<rparr>)"
proof -
  have r: "(16 :: u32) \<noteq> 0" and p: "unat (16 :: u32) = 2 ^ 4" by simp_all
  have run: "lemire_rng 16 7 rand_max = Some (0, 15, rand_max\<lparr>rand_calls := 2\<rparr>)"
    by (simp add: lemire_rng_def get_random_rand_max compute_interval_def)
  note opt = fast_accept_is_optimisation [OF r, of 7 rand_max]
  have "rejection_interval_upper_bound 16 = 0"
    using opt [THEN conjunct2, THEN conjunct2, THEN conjunct1, rule_format, OF p] .
  moreover
  have "lemire_rng_no_fast_path 16 7 rand_max = Some (0, 15, rand_max\<lparr>rand_calls := 2\<rparr>)"
    using opt [THEN conjunct2, THEN conjunct2, THEN conjunct2, THEN conjunct2] run by simp
  moreover from fast_accept_is_optimisation [of 3 7 rand_low_then_five]
    lemire_rng_3_rand_low_then_five
  have "lemire_rng_no_fast_path 3 7 rand_low_then_five =
     Some (0, 1, rand_low_then_five\<lparr>rand_calls := 4\<rparr>)" by simp
  ultimately show ?thesis by simp
qed

text \<open>
  C6. The fast path: for \<open>range > 0\<close>, when the first draw \<open>n\<close> has a lower half
  \<open>(n * range) mod 2\<^sup>3\<^sup>2 \<ge> range\<close>, the call returns 0 with \<open>(n * range) div 2\<^sup>3\<^sup>2\<close> in
  \<^verbatim>\<open>*result\<close>, in the state that this one draw (two calls of \<^verbatim>\<open>rand()\<close>) left.
\<close>

theorem fast_path_single_draw:
  assumes "range' \<noteq> 0" and "get_random_uniform_32bits_integer s = (n, s1)"
    and "unat range' \<le> (unat n * unat range') mod 2 ^ 32"
  shows "lemire_rng range' result s =
      Some (0, word_of_nat ((unat n * unat range') div 2 ^ 32), s1) \<and>
    rand_calls s1 = rand_calls s + 2"
proof
  from assms(2) have n: "n = draw s 0" and s1: "s1 = after_draws s (Suc 0)"
    by (simp_all add: get_random_draw)
  from assms(3) have "range' \<le> snd (compute_interval (draw s 0) range')"
    by (simp add: word_le_nat_alt unat_compute_interval_snd n)
  with assms(1) show "lemire_rng range' result s =
      Some (0, word_of_nat ((unat n * unat range') div 2 ^ 32), s1)"
    by (simp add: lemire_rng_unfold high_word_of_nat n s1)
  show "rand_calls s1 = rand_calls s + 2"
    using rand_calls_get_random [of s] assms(2) by simp
qed

theorem fast_path_single_draw_witness:
  "(12345 :: u32) \<noteq> 0 \<and>
   get_random_uniform_32bits_integer rand_max = (4294967295, rand_max\<lparr>rand_calls := 2\<rparr>) \<and>
   unat (12345 :: u32) \<le> (unat (4294967295 :: u32) * unat (12345 :: u32)) mod 2 ^ 32 \<and>
   lemire_rng 12345 7 rand_max = Some (0, 12344, rand_max\<lparr>rand_calls := 2\<rparr>)"
proof -
  have r: "(12345 :: u32) \<noteq> 0" by simp
  have low: "unat (12345 :: u32) \<le> (unat (4294967295 :: u32) * unat (12345 :: u32)) mod 2 ^ 32"
    by simp
  from fast_path_single_draw [OF r get_random_rand_max low, of 7] get_random_rand_max r low
  show ?thesis by simp
qed



text \<open>
  C8. Powers of two: when \<open>range\<close> is a power of two the bound of the rejection interval
  is 0, the loop returns at once whatever the draw, and the call makes exactly one draw,
  whose upper half it returns.
\<close>

theorem power_of_two_single_draw:
  assumes "unat range' = 2 ^ k" and "get_random_uniform_32bits_integer s = (n, s1)"
  shows "rejection_interval_upper_bound range' = 0 \<and>
    (\<forall>i j t. rejection_loop range' (rejection_interval_upper_bound range') i j t =
       Some ((i, j), t)) \<and>
    lemire_rng range' result s =
      Some (0, word_of_nat ((unat n * unat range') div 2 ^ 32), s1) \<and>
    rand_calls s1 = rand_calls s + 2"
proof (intro conjI allI)
  from assms(1) have r: "range' \<noteq> 0" by (auto simp add: unat_eq_0 [symmetric])
  from assms(1) show zero: "rejection_interval_upper_bound range' = 0"
    by (rule bound_power_of_two)
  show stops: "rejection_loop range' (rejection_interval_upper_bound range') i j t =
      Some ((i, j), t)" for i j t
    by (rule rejection_loop_stops) (simp add: zero)
  from assms(2) have n: "n = draw s 0" and s1: "s1 = after_draws s (Suc 0)"
    by (simp_all add: get_random_draw)
  show "lemire_rng range' result s =
      Some (0, word_of_nat ((unat n * unat range') div 2 ^ 32), s1)"
    using r by (simp add: lemire_rng_unfold stops high_word_of_nat n s1)
  show "rand_calls s1 = rand_calls s + 2"
    using rand_calls_get_random [of s] assms(2) by simp
qed

theorem power_of_two_single_draw_witness:
  "unat (16 :: u32) = 2 ^ 4 \<and>
   get_random_uniform_32bits_integer rand_low_then_five =
     (0, rand_low_then_five\<lparr>rand_calls := 2\<rparr>) \<and>
   rejection_interval_upper_bound 16 = 0 \<and>
   lemire_rng 16 7 rand_low_then_five = Some (0, 0, rand_low_then_five\<lparr>rand_calls := 2\<rparr>)"
proof -
  have p: "unat (16 :: u32) = 2 ^ 4" by simp
  from power_of_two_single_draw [OF p get_random_rand_low_then_five, of 7]
    p get_random_rand_low_then_five
  show ?thesis by simp
qed

text \<open>
  C9. Termination: for \<open>range > 0\<close>, when some draw \<open>k\<close> of the sequence has a lower half
  \<open>(n * range) mod 2\<^sup>3\<^sup>2 \<ge> 2\<^sup>3\<^sup>2 mod range\<close>, the call returns: it stops at the first such
  draw \<open>k0 \<le> k\<close>, after \<open>k0 + 1\<close> draws, with the upper half of that draw. The lemma
  \<open>lemire_rng_never_returns\<close> is the converse: on a sequence without such a draw the
  loop never ends, as there is no bound on the retries.
\<close>

theorem terminates_at_first_accepted_draw:
  assumes "range' \<noteq> 0"
    and "2 ^ 32 mod unat range' \<le> (unat (draw s k) * unat range') mod 2 ^ 32"
  shows "\<exists>k0\<le>k.
      (\<forall>m<k0. (unat (draw s m) * unat range') mod 2 ^ 32 < 2 ^ 32 mod unat range') \<and>
      2 ^ 32 mod unat range' \<le> (unat (draw s k0) * unat range') mod 2 ^ 32 \<and>
      lemire_rng range' result s =
        Some (0, word_of_nat ((unat (draw s k0) * unat range') div 2 ^ 32),
          after_draws s (Suc k0))"
proof -
  from assms have "accepted range' (draw s k)" by (simp add: accepted_iff)
  then obtain k0 where acc: "accepted range' (draw s k0)"
    and first: "\<forall>m<k0. \<not> accepted range' (draw s m)"
    by (rule first_accepted_draw)
  from first \<open>accepted range' (draw s k)\<close> have "k0 \<le> k" by (meson not_le)
  moreover from first
  have "\<forall>m<k0. (unat (draw s m) * unat range') mod 2 ^ 32 < 2 ^ 32 mod unat range'"
    by (simp add: accepted_iff [OF assms(1)] not_le)
  moreover from acc have "2 ^ 32 mod unat range' \<le> (unat (draw s k0) * unat range') mod 2 ^ 32"
    by (simp add: accepted_iff [OF assms(1)])
  moreover have "lemire_rng range' result s =
      Some (0, word_of_nat ((unat (draw s k0) * unat range') div 2 ^ 32), after_draws s (Suc k0))"
    using lemire_rng_first_accept [OF assms(1) acc first] by (simp only: high_word_of_nat)
  ultimately show ?thesis by blast
qed

theorem terminates_at_first_accepted_draw_witness:
  "(3 :: u32) \<noteq> 0 \<and>
   2 ^ 32 mod unat (3 :: u32) \<le> (unat (draw rand_low_then_five 2) * unat (3 :: u32)) mod 2 ^ 32 \<and>
   (\<exists>k0\<le>2. lemire_rng 3 7 rand_low_then_five =
        Some (0, word_of_nat ((unat (draw rand_low_then_five k0) * unat (3 :: u32)) div 2 ^ 32),
          after_draws rand_low_then_five (Suc k0)))"
proof -
  have r: "(3 :: u32) \<noteq> 0" by simp
  have acc: "2 ^ 32 mod unat (3 :: u32)
      \<le> (unat (draw rand_low_then_five 2) * unat (3 :: u32)) mod 2 ^ 32"
    by (simp add: draw_2_rand_low_then_five)
  from terminates_at_first_accepted_draw [OF r acc, of 7]
  have "\<exists>k0\<le>2. lemire_rng 3 7 rand_low_then_five =
        Some (0, word_of_nat ((unat (draw rand_low_then_five k0) * unat (3 :: u32)) div 2 ^ 32),
          after_draws rand_low_then_five (Suc k0))"
    by blast
  with r acc show ?thesis by (intro conjI)
qed

text \<open>
  C10. With \<open>range = 0\<close> the call returns 1 and \<^verbatim>\<open>*result\<close> holds the value it held before the
  call.
\<close>

theorem zero_range_leaves_result:
  "lemire_rng 0 result s = Some (1, result, s)"
  by (simp add: lemire_rng_def)

end
